theory Spec2Isabelle
  imports Main "HOL-Library.Word" "HOL-Library.Sublist"
begin

section \<open>Strings of the program\<close>

text \<open>
  A JavaScript string is a sequence of 16-bit code units; \<open>length\<close>, \<open>trim\<close>, \<open>split\<close>,
  \<open>replace\<close> and a regular expression without the \<open>u\<close> flag all work on code units.
  \<open>js\<close> turns an ASCII literal of the theory into such a string.
\<close>

type_synonym jstring = "16 word list"

definition js :: "string \<Rightarrow> jstring" where
  "js s = map (\<lambda>c. of_nat (of_char c)) s"

text \<open>
  The class \<open>\s\<close> of a regular expression and the characters removed by
  \<open>String.prototype.trim\<close> are the same set: WhiteSpace and LineTerminator of ECMAScript.
\<close>

definition isSpace :: "16 word \<Rightarrow> bool" where
  "isSpace c =
     (c \<in> {0x9, 0xA, 0xB, 0xC, 0xD, 0x20, 0xA0, 0x1680, 0x2028, 0x2029, 0x202F, 0x205F,
            0x3000, 0xFEFF}
      \<or> (0x2000 \<le> c \<and> c \<le> 0x200A))"

definition trim :: "jstring \<Rightarrow> jstring" where
  "trim s = rev (dropWhile isSpace (rev (dropWhile isSpace s)))"

text \<open>
  \<open>findFirst tok s\<close> is the first occurrence of \<open>tok\<close> in \<open>s\<close>: the text before it and
  the text after it. \<open>s.replace(tok, '')\<close> with a string pattern removes that first
  occurrence; \<open>s.split(tok)[0]\<close> is the text before it (all of \<open>s\<close> when there is none).
\<close>

fun findFirst :: "jstring \<Rightarrow> jstring \<Rightarrow> (jstring \<times> jstring) option" where
  "findFirst tok [] = (if tok = [] then Some ([], []) else None)"
| "findFirst tok (c # cs) =
     (if prefix tok (c # cs) then Some ([], drop (length tok) (c # cs))
      else (case findFirst tok cs of
              None \<Rightarrow> None
            | Some (before, after) \<Rightarrow> Some (c # before, after)))"

definition replaceFirst :: "jstring \<Rightarrow> jstring \<Rightarrow> jstring" where
  "replaceFirst tok s = (case findFirst tok s of None \<Rightarrow> s | Some (before, after) \<Rightarrow> before @ after)"

definition splitHead :: "jstring \<Rightarrow> jstring \<Rightarrow> jstring" where
  "splitHead tok s = (case findFirst tok s of None \<Rightarrow> s | Some (before, after) \<Rightarrow> before)"

definition containsToken :: "jstring \<Rightarrow> jstring \<Rightarrow> bool" where
  "containsToken tok s = (findFirst tok s \<noteq> None)"

section \<open>Messages\<close>

text \<open>
  Modelled from the spec: the declarations of \<open>Role\<close> and \<open>Message\<close> (types.ts) are not
  among the sources; the spec gives
  \<open>Message = { id: string, role: USER|MODEL, content: text, timestamp: instant, isStreaming: bool }\<close>.
  The code leaves \<open>isStreaming\<close> out of a user message and only ever tests the field for
  truthiness, so the absent field is \<open>False\<close> here. The timestamp is the clock reading
  in milliseconds.
\<close>

datatype Role = USER | MODEL

record Message =
  id :: jstring
  role :: Role
  content :: jstring
  timestamp :: nat
  isStreaming :: bool

section \<open>JSON values\<close>

text \<open>
  What \<open>JSON.parse\<close> returns. A number is kept as its literal text and an object as its
  members in source order: nothing in the program looks inside either.
\<close>

datatype json =
    JNull
  | JBool bool
  | JNumber jstring
  | JString jstring
  | JArray "json list"
  | JObject "(jstring \<times> json) list"

section \<open>A parser for the JSON grammar\<close>

text \<open>
  \<open>JSON.parse\<close> is the platform's, not the program's. \<open>JSON_parse\<close> reads the JSON grammar
  (ECMA-404) by recursive descent and is what concrete inputs are evaluated with; \<open>None\<close>
  is the SyntaxError. The fuel of \<open>parseValue\<close> counts calls; every call reads at least
  one code unit, and \<open>JSON_parse\<close> starts with twice the length of the text.
\<close>

definition isJsonWs :: "16 word \<Rightarrow> bool" where
  "isJsonWs c = (c \<in> {0x20, 0x9, 0xA, 0xD})"

definition isDigit :: "16 word \<Rightarrow> bool" where
  "isDigit c = (0x30 \<le> c \<and> c \<le> 0x39)"

definition hexVal :: "16 word \<Rightarrow> 16 word option" where
  "hexVal c =
     (if 0x30 \<le> c \<and> c \<le> 0x39 then Some (c - 0x30)
      else if 0x41 \<le> c \<and> c \<le> 0x46 then Some (c - 0x41 + 10)
      else if 0x61 \<le> c \<and> c \<le> 0x66 then Some (c - 0x61 + 10)
      else None)"

definition hex4 :: "16 word \<Rightarrow> 16 word \<Rightarrow> 16 word \<Rightarrow> 16 word \<Rightarrow> 16 word option" where
  "hex4 a b c d =
     (case (hexVal a, hexVal b, hexVal c, hexVal d) of
        (Some w, Some x, Some y, Some z) \<Rightarrow> Some (((w * 16 + x) * 16 + y) * 16 + z)
      | _ \<Rightarrow> None)"

definition unescape :: "16 word \<Rightarrow> 16 word option" where
  "unescape e =
     (if e = 0x22 \<or> e = 0x5C \<or> e = 0x2F then Some e
      else if e = 0x62 then Some 0x8
      else if e = 0x66 then Some 0xC
      else if e = 0x6E then Some 0xA
      else if e = 0x72 then Some 0xD
      else if e = 0x74 then Some 0x9
      else None)"

text \<open>The characters of a string after its opening quote, up to the closing one.\<close>

fun parseString :: "jstring \<Rightarrow> jstring \<Rightarrow> (jstring \<times> jstring) option" where
  "parseString acc [] = None"
| "parseString acc (c # cs) =
     (if c = 0x22 then Some (acc, cs)
      else if c = 0x5C then
        (case cs of
           [] \<Rightarrow> None
         | e # cs1 \<Rightarrow>
             if e = 0x75 then
               (case cs1 of
                  h1 # h2 # h3 # h4 # cs2 \<Rightarrow>
                    (case hex4 h1 h2 h3 h4 of
                       None \<Rightarrow> None
                     | Some v \<Rightarrow> parseString (acc @ [v]) cs2)
                | _ \<Rightarrow> None)
             else
               (case unescape e of
                  None \<Rightarrow> None
                | Some v \<Rightarrow> parseString (acc @ [v]) cs1))
      else if c < 0x20 then None
      else parseString (acc @ [c]) cs)"

text \<open>A number: \<open>-? (0 | [1-9][0-9]*) (. [0-9]+)? ([eE] [+-]? [0-9]+)?\<close>, as its text.\<close>

definition parseNumber :: "jstring \<Rightarrow> (jstring \<times> jstring) option" where
  "parseNumber cs =
     (let sgn = (if cs \<noteq> [] \<and> hd cs = 0x2D then [0x2D :: 16 word] else []);
          r0 = drop (length sgn) cs;
          ds = takeWhile isDigit r0;
          r1 = dropWhile isDigit r0
      in if ds = [] \<or> (1 < length ds \<and> hd ds = 0x30) then None
         else
           (let hasFrac = (r1 \<noteq> [] \<and> hd r1 = 0x2E);
                fd = (if hasFrac then takeWhile isDigit (tl r1) else []);
                r2 = (if hasFrac then dropWhile isDigit (tl r1) else r1)
            in if hasFrac \<and> fd = [] then None
               else
                 (let hasExp = (r2 \<noteq> [] \<and> (hd r2 = 0x65 \<or> hd r2 = 0x45));
                      r3 = (if hasExp then tl r2 else r2);
                      es = (if hasExp \<and> r3 \<noteq> [] \<and> (hd r3 = 0x2B \<or> hd r3 = 0x2D)
                            then [hd r3] else []);
                      r4 = drop (length es) r3;
                      ed = (if hasExp then takeWhile isDigit r4 else []);
                      r5 = (if hasExp then dropWhile isDigit r4 else r2)
                  in if hasExp \<and> ed = [] then None
                     else Some (take (length cs - length r5) cs, r5))))"

fun parseValue :: "nat \<Rightarrow> jstring \<Rightarrow> (json \<times> jstring) option"
  and parseElems :: "nat \<Rightarrow> json list \<Rightarrow> jstring \<Rightarrow> (json list \<times> jstring) option"
  and parseMembers ::
    "nat \<Rightarrow> (jstring \<times> json) list \<Rightarrow> jstring \<Rightarrow> ((jstring \<times> json) list \<times> jstring) option"
where
  "parseValue 0 cs = None"
| "parseValue (Suc n) cs =
     (case cs of
        [] \<Rightarrow> None
      | c # r \<Rightarrow>
          if c = 0x22 then
            (case parseString [] r of None \<Rightarrow> None | Some (s, rest) \<Rightarrow> Some (JString s, rest))
          else if c = 0x5B then
            (case dropWhile isJsonWs r of
               [] \<Rightarrow> None
             | d # r1 \<Rightarrow>
                 if d = 0x5D then Some (JArray [], r1)
                 else (case parseElems n [] (d # r1) of
                         None \<Rightarrow> None
                       | Some (vs, rest) \<Rightarrow> Some (JArray vs, rest)))
          else if c = 0x7B then
            (case dropWhile isJsonWs r of
               [] \<Rightarrow> None
             | d # r1 \<Rightarrow>
                 if d = 0x7D then Some (JObject [], r1)
                 else (case parseMembers n [] (d # r1) of
                         None \<Rightarrow> None
                       | Some (kvs, rest) \<Rightarrow> Some (JObject kvs, rest)))
          else if prefix (js ''true'') cs then Some (JBool True, drop 4 cs)
          else if prefix (js ''false'') cs then Some (JBool False, drop 5 cs)
          else if prefix (js ''null'') cs then Some (JNull, drop 4 cs)
          else (case parseNumber cs of
                  None \<Rightarrow> None
                | Some (lexeme, rest) \<Rightarrow> Some (JNumber lexeme, rest)))"
| "parseElems 0 acc cs = None"
| "parseElems (Suc n) acc cs =
     (case parseValue n cs of
        None \<Rightarrow> None
      | Some (v, r) \<Rightarrow>
          (case dropWhile isJsonWs r of
             [] \<Rightarrow> None
           | d # r1 \<Rightarrow>
               if d = 0x2C then parseElems n (acc @ [v]) (dropWhile isJsonWs r1)
               else if d = 0x5D then Some (acc @ [v], r1)
               else None))"
| "parseMembers 0 acc cs = None"
| "parseMembers (Suc n) acc cs =
     (case cs of
        [] \<Rightarrow> None
      | q # r \<Rightarrow>
          if q = 0x22 then
            (case parseString [] r of
               None \<Rightarrow> None
             | Some (k, r1) \<Rightarrow>
                 (case dropWhile isJsonWs r1 of
                    [] \<Rightarrow> None
                  | col # r2 \<Rightarrow>
                      if col = 0x3A then
                        (case parseValue n (dropWhile isJsonWs r2) of
                           None \<Rightarrow> None
                         | Some (v, r3) \<Rightarrow>
                             (case dropWhile isJsonWs r3 of
                                [] \<Rightarrow> None
                              | d # r4 \<Rightarrow>
                                  if d = 0x2C
                                  then parseMembers n (acc @ [(k, v)]) (dropWhile isJsonWs r4)
                                  else if d = 0x7D then Some (acc @ [(k, v)], r4)
                                  else None))
                      else None))
          else None)"

definition JSON_parse :: "jstring \<Rightarrow> json option" where
  "JSON_parse s =
     (case parseValue (Suc (2 * length s)) (dropWhile isJsonWs s) of
        None \<Rightarrow> None
      | Some (v, rest) \<Rightarrow> if dropWhile isJsonWs rest = [] then Some v else None)"

section \<open>The suggestion marker (MessageBubble.tsx)\<close>

definition openToken :: jstring where
  "openToken = js ''<<<SUGGESTIONS:''"

definition partialToken :: jstring where
  "partialToken = js ''<<<SUGGESTIONS''"

definition closeToken :: jstring where
  "closeToken = js ''>>>''"

text \<open>
  The pattern \<open>/<<<SUGGESTIONS:\s*(\[[\s\S]*?\])\s*>>>/\<close>.

  \<open>lazyBody acc cs\<close> is the part \<open>[\s\S]*?\]\s*>>>\<close> after the opening bracket: \<open>acc\<close> is
  the group read so far, \<open>cs\<close> the text still ahead. The lazy star stops at the first
  \<open>]\<close> after which optional white space and \<open>>>>\<close> follow. The greedy \<open>\s*\<close> never
  needs to give characters back, since neither \<open>[\<close> nor \<open>>\<close> is white space. The
  result is the group and the text matched after it.
\<close>

fun lazyBody :: "jstring \<Rightarrow> jstring \<Rightarrow> (jstring \<times> jstring) option" where
  "lazyBody acc [] = None"
| "lazyBody acc (c # cs) =
     (if c = 0x5D \<and> prefix closeToken (dropWhile isSpace cs)
      then Some (acc @ [c], takeWhile isSpace cs @ closeToken)
      else lazyBody (acc @ [c]) cs)"

text \<open>\<open>matchHere cs\<close>: the pattern matched at the start of \<open>cs\<close>, as \<open>(match[0], match[1])\<close>.\<close>

definition matchHere :: "jstring \<Rightarrow> (jstring \<times> jstring) option" where
  "matchHere cs =
     (if prefix openToken cs then
        (let r = drop (length openToken) cs in
         (case dropWhile isSpace r of
            [] \<Rightarrow> None
          | c # body \<Rightarrow>
              if c = 0x5B then
                (case lazyBody [c] body of
                   None \<Rightarrow> None
                 | Some (g, rest) \<Rightarrow> Some (openToken @ takeWhile isSpace r @ g @ rest, g))
              else None))
      else None)"

text \<open>
  \<open>content.match(suggestionRegex)\<close>: the leftmost position where the pattern matches. The
  match object carries \<open>index\<close>, \<open>match[0]\<close> and \<open>match[1]\<close>; \<open>regexFrom i cs\<close> scans
  \<open>cs\<close>, which starts at offset \<open>i\<close> of the text.
\<close>

fun regexFrom :: "nat \<Rightarrow> jstring \<Rightarrow> (nat \<times> jstring \<times> jstring) option" where
  "regexFrom i [] = None"
| "regexFrom i (c # cs) =
     (case matchHere (c # cs) of
        Some (m0, g) \<Rightarrow> Some (i, m0, g)
      | None \<Rightarrow> regexFrom (Suc i) cs)"

definition regexMatch :: "jstring \<Rightarrow> (nat \<times> jstring \<times> jstring) option" where
  "regexMatch s = regexFrom 0 s"

text \<open>
  The \<open>useMemo\<close> body of \<open>MessageBubble\<close>. \<open>JSON.parse\<close> belongs to the platform and is a
  parameter here: \<open>parse s = None\<close> stands for the SyntaxError it throws.
\<close>

definition extractSuggestions :: "(jstring \<Rightarrow> json option) \<Rightarrow> Message \<Rightarrow> jstring \<times> json list" where
  "extractSuggestions parse m =
     (if role m = USER then (content m, [])
      else
        (case regexMatch (content m) of
           Some (index, m0, jsonStr) \<Rightarrow>
             (case parse jsonStr of
                None \<Rightarrow> (content m, [])
              | Some parsed \<Rightarrow>
                  (trim (replaceFirst m0 (content m)),
                   (case parsed of JArray xs \<Rightarrow> xs | _ \<Rightarrow> [])))
         | None \<Rightarrow>
             (if isStreaming m \<and> containsToken partialToken (content m)
              then (trim (splitHead partialToken (content m)), [])
              else (content m, []))))"

section \<open>The model client adapter (GeminiService)\<close>

text \<open>
  One entry of the history given to the vendor's chat: \<open>{ role, parts: [{ text }] }\<close>.
\<close>

datatype Content = Content Role "jstring list"

text \<open>
  The vendor's \<open>Chat\<close> object is known to the program only by the history it was created
  with (\<open>None\<close> is \<open>undefined\<close>); the model name and the system instruction are fixed.
\<close>

datatype Chat = Chat "Content list option"

section \<open>The application state (App.tsx)\<close>

text \<open>
  A call of \<open>handleSendMessage\<close> that is suspended in its \<open>for await\<close> loop: the locals
  \<open>aiMessageId\<close> and \<open>accumulatedText\<close>, and the text that was passed to
  \<open>sendMessageStream\<close>.
\<close>

record Send =
  aiMessageId :: jstring
  accumulatedText :: jstring
  sentText :: jstring

text \<open>
  What the program has done with a session in one turn: the text it passed to
  \<open>chatSession.sendMessageStream\<close>, the text of the fragments it took from the stream, and
  whether it read the stream to its end (it did not when the loop left on the stop flag or
  the stream threw).
\<close>

record Turn =
  sent :: jstring
  received :: jstring
  readToEnd :: bool

text \<open>
  The React state of \<open>App\<close> (\<open>messages\<close>, \<open>isLoading\<close>, \<open>error\<close>), the ref
  \<open>stopGeneration\<close>, the \<open>chatSession\<close> field of the service (\<open>None\<close> is \<open>null\<close>), and the
  suspended calls of \<open>handleSendMessage\<close> in the order they were started.

  The last three fields follow the session object itself: \<open>sessionNo\<close> counts the
  sessions created so far and so names the current one, \<open>turns\<close> are the turns that have
  run on the current session, oldest first, and \<open>sendSession\<close> gives for each suspended call
  the session its text was sent on.
\<close>

record App =
  messages :: "Message list"
  isLoading :: bool
  error :: "jstring option"
  stopGeneration :: bool
  chatSession :: "Chat option"
  sends :: "Send list"
  sessionNo :: nat
  turns :: "Turn list"
  sendSession :: "nat list"

text \<open>
  The clock readings of one call of \<open>handleSendMessage\<close>, in the order the code takes
  them: \<open>Date.now()\<close> for \<open>aiMessageId\<close>, \<open>Date.now()\<close> for \<open>userMessageId\<close>, \<open>new Date()\<close>
  of the user message, \<open>new Date()\<close> of the placeholder.
\<close>

record Readings =
  nowAi :: nat
  nowUser :: nat
  dateUser :: nat
  dateAi :: nat

text \<open>\<open>Number.prototype.toString\<close> on a non-negative integer: its decimal digits.\<close>

function toString :: "nat \<Rightarrow> jstring" where
  "toString n = (if n < 10 then [0x30 + of_nat n] else toString (n div 10) @ [0x30 + of_nat (n mod 10)])"
  by pat_completeness auto
termination
  by (relation "measure (\<lambda>n. n)") auto

declare toString.simps [simp del]

definition errorBanner :: jstring where
  "errorBanner = [0x62B1, 0x6B49, 0xFF0C, 0x9047, 0x5230, 0x4E86, 0x4E00, 0x4E9B, 0x95EE, 0x9898,
                  0xFF0C, 0x8BF7, 0x7A0D, 0x540E, 0x518D, 0x8BD5, 0x3002]"

definition failureMarker :: jstring where
  "failureMarker = [0x26A0, 0xFE0F, 0x0020, 0x751F, 0x6210, 0x5931, 0x8D25]"

text \<open>\<open>startChat\<close> replaces the session by a new one, on which no turn has run.\<close>

definition startChat :: "Content list option \<Rightarrow> App \<Rightarrow> App" where
  "startChat history s =
     s\<lparr>chatSession := Some (Chat history), sessionNo := Suc (sessionNo s), turns := []\<rparr>"

text \<open>The state after the mount effect, which calls \<open>startChat()\<close>.\<close>

definition initApp :: App where
  "initApp = \<lparr>messages = [], isLoading = False, error = None, stopGeneration = False,
              chatSession = Some (Chat None), sends = [],
              sessionNo = 1, turns = [], sendSession = []\<rparr>"

definition handleClearChat :: "bool \<Rightarrow> App \<Rightarrow> App" where
  "handleClearChat confirmed s =
     (if confirmed then (startChat None (s\<lparr>messages := []\<rparr>))\<lparr>error := None\<rparr> else s)"

definition handleStop :: "App \<Rightarrow> App" where
  "handleStop s = (if isLoading s then s\<lparr>stopGeneration := True\<rparr> else s)"

text \<open>
  \<open>handleSendMessage\<close> up to its first suspension. The generator of
  \<open>sendMessageStream\<close> starts with the loop's first \<open>next()\<close>: it creates a session when
  there is none and sends the text on the current session.
\<close>

definition handleSendMessage :: "jstring \<Rightarrow> bool \<Rightarrow> Readings \<Rightarrow> App \<Rightarrow> App" where
  "handleSendMessage text isRegenerate r s =
     (let aiId = toString (nowAi r + 1);
          userMessageId = toString (nowUser r);
          userMessage = \<lparr>id = userMessageId, role = USER, content = text,
                         timestamp = dateUser r, isStreaming = False\<rparr>;
          aiPlaceholderMessage = \<lparr>id = aiId, role = MODEL, content = [],
                                  timestamp = dateAi r, isStreaming = True\<rparr>;
          prev = (if isRegenerate then messages s else messages s @ [userMessage]);
          s1 = (case chatSession s of None \<Rightarrow> startChat None s | Some c \<Rightarrow> s)
      in s1\<lparr>stopGeneration := False, error := None, isLoading := True,
            messages := prev @ [aiPlaceholderMessage],
            sends := sends s @ [\<lparr>aiMessageId = aiId, accumulatedText = [], sentText = text\<rparr>],
            sendSession := sendSession s @ [sessionNo s1]\<rparr>)"

text \<open>The update of the loop body: the last message, when it carries \<open>aiMessageId\<close>.\<close>

definition setLastContent :: "jstring \<Rightarrow> jstring \<Rightarrow> Message list \<Rightarrow> Message list" where
  "setLastContent aiId txt prev =
     (if prev \<noteq> [] \<and> id (last prev) = aiId
      then butlast prev @ [(last prev)\<lparr>content := txt\<rparr>]
      else prev)"

text \<open>The update after the loop: the first message found with \<open>aiMessageId\<close>.\<close>

fun clearStreaming :: "jstring \<Rightarrow> Message list \<Rightarrow> Message list" where
  "clearStreaming aiId [] = []"
| "clearStreaming aiId (m # ms) =
     (if id m = aiId then m\<lparr>isStreaming := False\<rparr> # ms else m # clearStreaming aiId ms)"

text \<open>The update of the \<open>catch\<close> block: every message with \<open>aiMessageId\<close>.\<close>

definition markFailed :: "jstring \<Rightarrow> Message list \<Rightarrow> Message list" where
  "markFailed aiId prev =
     map (\<lambda>m. if id m = aiId
              then m\<lparr>isStreaming := False,
                     content := (if content m = [] then failureMarker else content m)\<rparr>
              else m) prev"

definition dropSend :: "nat \<Rightarrow> 'a list \<Rightarrow> 'a list" where
  "dropSend i xs = take i xs @ drop (Suc i) xs"

text \<open>
  The turn of call \<open>i\<close> is over. It is noted on the current session when that is the
  session the text was sent on; a session that has been replaced since is out of reach.
\<close>

definition recordTurn :: "nat \<Rightarrow> bool \<Rightarrow> App \<Rightarrow> App" where
  "recordTurn i toEnd s =
     (if sendSession s ! i = sessionNo s
      then s\<lparr>turns := turns s @ [\<lparr>sent = sentText (sends s ! i),
                                    received = accumulatedText (sends s ! i),
                                    readToEnd = toEnd\<rparr>]\<rparr>
      else s)"

text \<open>The \<open>finally\<close> block, after which call \<open>i\<close> of \<open>handleSendMessage\<close> is over.\<close>

definition finish :: "nat \<Rightarrow> App \<Rightarrow> App" where
  "finish i s = s\<lparr>isLoading := False, stopGeneration := False, sends := dropSend i (sends s),
                 sendSession := dropSend i (sendSession s)\<rparr>"

text \<open>
  The end of the loop and the update after it; \<open>toEnd\<close> tells whether the stream was
  exhausted or the loop left on the stop flag.
\<close>

definition leaveLoop :: "nat \<Rightarrow> bool \<Rightarrow> App \<Rightarrow> App" where
  "leaveLoop i toEnd s =
     finish i ((recordTurn i toEnd s)
                 \<lparr>messages := clearStreaming (aiMessageId (sends s ! i)) (messages s)\<rparr>)"

text \<open>
  The vendor's stream of call \<open>i\<close> delivers a chunk with text \<open>txt\<close>. The adapter yields
  it only when it is not empty; the loop then leaves on the stop flag, or appends the
  fragment and writes the accumulated text to the last message.
\<close>

definition streamChunk :: "nat \<Rightarrow> jstring \<Rightarrow> App \<Rightarrow> App" where
  "streamChunk i txt s =
     (if \<not> i < length (sends s) then s
      else if txt = [] then s
      else if stopGeneration s then leaveLoop i False s
      else
        (let cur = sends s ! i;
             acc = accumulatedText cur @ txt
         in s\<lparr>sends := (sends s)[i := cur\<lparr>accumulatedText := acc\<rparr>],
              messages := setLastContent (aiMessageId cur) acc (messages s)\<rparr>))"

text \<open>The vendor's stream of call \<open>i\<close> ends.\<close>

definition streamEnd :: "nat \<Rightarrow> App \<Rightarrow> App" where
  "streamEnd i s = (if \<not> i < length (sends s) then s else leaveLoop i True s)"

text \<open>The vendor's stream of call \<open>i\<close> throws; the adapter logs and rethrows.\<close>

definition streamError :: "nat \<Rightarrow> App \<Rightarrow> App" where
  "streamError i s =
     (if \<not> i < length (sends s) then s
      else finish i ((recordTurn i False s)
                       \<lparr>error := Some errorBanner,
                        messages := markFailed (aiMessageId (sends s ! i)) (messages s)\<rparr>))"

definition historyForSdk :: "Message list \<Rightarrow> Content list" where
  "historyForSdk ms = map (\<lambda>m. Content (role m) [content m]) ms"

text \<open>
  \<open>handleRegenerate\<close>. \<open>lastUserMsgIndex\<close> is \<open>None\<close> for the code's \<open>-1\<close>;
  \<open>messages[messages.length - 2]\<close> is \<open>undefined\<close> when there is one message.
\<close>

definition handleRegenerate :: "Readings \<Rightarrow> App \<Rightarrow> App" where
  "handleRegenerate r s =
     (if messages s = [] \<or> isLoading s then s
      else
        (let ms = messages s;
             lastMsg = last ms;
             lastUserMsgIndex =
               (if role lastMsg = MODEL \<and> 2 \<le> length ms \<and> role (ms ! (length ms - 2)) = USER
                then Some (length ms - 2) else None)
         in (case lastUserMsgIndex of
               None \<Rightarrow> s
             | Some k \<Rightarrow>
                 (let lastUserMsgContent = content (ms ! k);
                      newHistoryMessages = take k ms;
                      s1 = startChat (Some (historyForSdk newHistoryMessages)) s;
                      s2 = s1\<lparr>messages := take (length ms - 1) ms\<rparr>
                  in handleSendMessage lastUserMsgContent True r s2))))"

fun findIndex :: "('a \<Rightarrow> bool) \<Rightarrow> 'a list \<Rightarrow> nat option" where
  "findIndex P [] = None"
| "findIndex P (x # xs) = (if P x then Some 0 else map_option Suc (findIndex P xs))"

definition handleEdit :: "jstring \<Rightarrow> jstring \<Rightarrow> Readings \<Rightarrow> App \<Rightarrow> App" where
  "handleEdit msgId newContent r s =
     (case findIndex (\<lambda>m. id m = msgId) (messages s) of
        None \<Rightarrow> s
      | Some index \<Rightarrow>
          if role (messages s ! index) \<noteq> USER then s
          else
            (let previousMessages = take index (messages s);
                 s1 = startChat (Some (historyForSdk previousMessages)) s;
                 s2 = s1\<lparr>messages := previousMessages\<rparr>
             in handleSendMessage newContent False r s2))"

text \<open>The binding \<open>onSuggestionClick = (text) => handleSendMessage(text, false)\<close>.\<close>

definition onSuggestionClick :: "jstring \<Rightarrow> Readings \<Rightarrow> App \<Rightarrow> App" where
  "onSuggestionClick text r s = handleSendMessage text False r s"

text \<open>
  The chips \<open>MessageBubble\<close> renders under a message: the extracted suggestions of a model
  message (a model message is never in editing mode).
\<close>

definition chips :: "(jstring \<Rightarrow> json option) \<Rightarrow> Message \<Rightarrow> json list" where
  "chips parse m = (if role m \<noteq> USER then snd (extractSuggestions parse m) else [])"

text \<open>\<open>handleSubmit\<close> of \<open>ChatInput\<close>, with \<open>onSend\<close> and \<open>onStop\<close> bound as in \<open>App\<close>.\<close>

definition handleSubmit :: "jstring \<Rightarrow> Readings \<Rightarrow> App \<Rightarrow> App" where
  "handleSubmit input r s =
     (if isLoading s then handleStop s
      else if trim input = [] then s
      else handleSendMessage input False r s)"

definition streamingCount :: "App \<Rightarrow> nat" where
  "streamingCount s = length (filter isStreaming (messages s))"

section \<open>The session's history and orderly runs\<close>

text \<open>
  The history the current session holds, as far as the program determines it. The vendor's
  session starts from its seed and extends its history with every turn (the comment in
  \<open>handleRegenerate\<close> relies on this: the session must hold the history before the
  prompt that is sent next): a turn read to its end adds the user text that was sent and
  the model text that was received. What the vendor keeps of a turn that was not read to
  its end is not in the sources, so the history is \<open>None\<close> then.
\<close>

definition sessionHistory :: "App \<Rightarrow> Content list option" where
  "sessionHistory s =
     (case chatSession s of
        None \<Rightarrow> None
      | Some (Chat seed) \<Rightarrow>
          if list_all readToEnd (turns s)
          then Some ((case seed of None \<Rightarrow> [] | Some h \<Rightarrow> h)
                     @ concat (map (\<lambda>t. [Content USER [sent t], Content MODEL [received t]])
                                   (turns s)))
          else None)"

text \<open>
  The message list without the exchange in flight: with a send running, all but the last
  two messages (the user message of the turn and the placeholder).
\<close>

definition settledPrefix :: "App \<Rightarrow> Message list" where
  "settledPrefix s =
     (if sends s = [] then messages s else take (length (messages s) - 2) (messages s))"

text \<open>
  The operations of a run in which one send at most is in flight and every stream is read
  to its end: the input box, a suggestion chip, a fragment and the end of the stream of the
  running send, regenerate, edit and clear.
\<close>

datatype Event =
    Submit jstring Readings
  | ChipClick jstring Readings
  | Fragment jstring
  | StreamEnd
  | Regenerate Readings
  | Edit jstring jstring Readings
  | ClearChat

fun step :: "Event \<Rightarrow> App \<Rightarrow> App" where
  "step (Submit input r) s = handleSubmit input r s"
| "step (ChipClick t r) s = onSuggestionClick t r s"
| "step (Fragment txt) s = streamChunk 0 txt s"
| "step StreamEnd s = streamEnd 0 s"
| "step (Regenerate r) s = handleRegenerate r s"
| "step (Edit msgId t r) s = handleEdit msgId t r s"
| "step ClearChat s = handleClearChat True s"

text \<open>
  Sends, edits and clears issued only while no send is in flight. (With a send in flight
  the input box is the stop button, and regenerate tests \<open>isLoading\<close> itself.)
\<close>

fun whileIdle :: "Event \<Rightarrow> App \<Rightarrow> bool" where
  "whileIdle (Submit input r) s = (\<not> isLoading s)"
| "whileIdle (ChipClick t r) s = (\<not> isLoading s)"
| "whileIdle (Edit msgId t r) s = (\<not> isLoading s)"
| "whileIdle ClearChat s = (\<not> isLoading s)"
| "whileIdle e s = True"

fun orderly :: "Event list \<Rightarrow> App \<Rightarrow> bool" where
  "orderly [] s = True"
| "orderly (e # es) s = (whileIdle e s \<and> orderly es (step e s))"

text \<open>
  The shape of a state with no send in flight, or with one: its user message and its
  placeholder are the last two messages, the placeholder shows the accumulated text, and
  the text was sent on the current session.
\<close>

definition oneSendAtMost :: "App \<Rightarrow> bool" where
  "oneSendAtMost s =
     (list_all readToEnd (turns s) \<and> chatSession s \<noteq> None \<and> \<not> stopGeneration s \<and>
      (case sends s of
         [] \<Rightarrow> \<not> isLoading s \<and> sendSession s = []
       | [cur] \<Rightarrow>
           isLoading s \<and> sendSession s = [sessionNo s] \<and> 2 \<le> length (messages s) \<and>
           role (messages s ! (length (messages s) - 2)) = USER \<and>
           content (messages s ! (length (messages s) - 2)) = sentText cur \<and>
           role (last (messages s)) = MODEL \<and>
           id (last (messages s)) = aiMessageId cur \<and>
           content (last (messages s)) = accumulatedText cur
       | _ \<Rightarrow> False))"

definition inSync :: "App \<Rightarrow> bool" where
  "inSync s =
     (sessionHistory s = Some (map (\<lambda>m. Content (role m) [content m]) (settledPrefix s)))"

section \<open>Example messages\<close>

text \<open>Model messages on which the theorems below are evaluated.\<close>

definition modelMessage :: "jstring \<Rightarrow> bool \<Rightarrow> Message" where
  "modelMessage c streaming =
     \<lparr>id = js ''1'', role = MODEL, content = c, timestamp = 0, isStreaming = streaming\<rparr>"

definition textTrailing :: jstring where
  \<open>textTrailing = js ''Sure. <<<SUGGESTIONS: ["a", "b"]>>>''\<close>

definition textPlain :: jstring where
  "textPlain = js ''Just text. ''"

definition textNested :: jstring where
  \<open>textNested = js ''<<<SUGGESTIONS: ["]>>>"]>>>''\<close>

definition textPartial :: jstring where
  \<open>textPartial = js ''Hi <<<SUGGESTIONS: ["a''\<close>

definition textBadJson :: jstring where
  \<open>textBadJson = js ''Hi <<<SUGGESTIONS: ["a", ]>>>''\<close>

definition textNoArray :: jstring where
  \<open>textNoArray = js ''Hi <<<SUGGESTIONS: oops>>>''\<close>

text \<open>
  Example states. All four clock readings of a send are the same instant; the first
  exchange ends with a block of two suggestions.
\<close>

definition readingsAt :: "nat \<Rightarrow> Readings" where
  "readingsAt t = \<lparr>nowAi = t, nowUser = t, dateUser = t, dateAi = t\<rparr>"

definition afterFirstExchange :: App where
  "afterFirstExchange =
     streamEnd 0 (streamChunk 0 textTrailing (handleSubmit (js ''hi'') (readingsAt 100) initApp))"

definition secondSendInFlight :: App where
  "secondSendInFlight = handleSubmit (js ''more'') (readingsAt 200) afterFirstExchange"

definition afterSecondExchange :: App where
  "afterSecondExchange = streamEnd 0 (streamChunk 0 (js ''ok'') secondSendInFlight)"

text \<open>The four messages of \<open>afterSecondExchange\<close>.\<close>

definition exU1 :: Message where
  "exU1 = \<lparr>id = js ''100'', role = USER, content = js ''hi'', timestamp = 100, isStreaming = False\<rparr>"

definition exM1 :: Message where
  "exM1 = \<lparr>id = js ''101'', role = MODEL, content = textTrailing, timestamp = 100, isStreaming = False\<rparr>"

definition exU2 :: Message where
  "exU2 = \<lparr>id = js ''200'', role = USER, content = js ''more'', timestamp = 200, isStreaming = False\<rparr>"


text \<open>The first send, suspended before its first fragment.\<close>

definition firstSendInFlight :: App where
  "firstSendInFlight = handleSubmit (js ''hi'') (readingsAt 100) initApp"



text \<open>
  A send during which the clock ticks between the two \<open>Date.now()\<close> readings, the state
  after the first send has failed before its first fragment, and an orderly run.
\<close>

definition readingsTick :: Readings where
  "readingsTick = \<lparr>nowAi = 100, nowUser = 101, dateUser = 101, dateAi = 101\<rparr>"

definition tickSendInFlight :: App where
  "tickSendInFlight = handleSubmit (js ''hi'') readingsTick initApp"

definition afterFailure :: App where
  "afterFailure = streamError 0 firstSendInFlight"

definition exampleRun :: "Event list" where
  "exampleRun =
     [Submit (js ''hi'') (readingsAt 100), Fragment textTrailing, StreamEnd,
      ChipClick (js ''a'') (readingsAt 200), Fragment (js ''o''), Fragment (js ''k''), StreamEnd,
      Regenerate (readingsAt 300), Fragment (js ''fine''), StreamEnd,
      Edit (js ''200'') (js ''b'') (readingsAt 400)]"

section \<open>Facts about the scanner\<close>

lemma findFirst_append: "findFirst tok s = Some (b, a) \<Longrightarrow> s = b @ tok @ a"
proof (induction s arbitrary: b)
  case Nil
  then show ?case by (simp split: if_splits)
next
  case (Cons c cs)
  show ?case
  proof (cases "prefix tok (c # cs)")
    case True
    from True Cons.prems have ba: "b = []" "a = drop (length tok) (c # cs)" by simp_all
    from True obtain r where "c # cs = tok @ r" by (auto simp: prefix_def)
    with ba show ?thesis by simp
  next
    case False
    with Cons.prems obtain b' where "findFirst tok cs = Some (b', a)" "b = c # b'"
      by (auto split: option.splits)
    with Cons.IH show ?thesis by simp
  qed
qed

lemma findFirst_at:
  "prefix tok (drop k s) \<Longrightarrow> \<forall>i<k. \<not> prefix tok (drop i s) \<Longrightarrow> k \<le> length s \<Longrightarrow>
   findFirst tok s = Some (take k s, drop (k + length tok) s)"
proof (induction s arbitrary: k)
  case Nil
  then show ?case by simp
next
  case (Cons c cs)
  show ?case
  proof (cases k)
    case 0
    with Cons.prems show ?thesis by simp
  next
    case (Suc j)
    with Cons.prems have np: "\<not> prefix tok (c # cs)" by (metis drop0 zero_less_Suc)
    have "\<forall>i<j. \<not> prefix tok (drop i cs)"
      using Cons.prems(2) Suc by (metis Suc_mono drop_Suc_Cons) 
    moreover have "prefix tok (drop j cs)" "j \<le> length cs" using Cons.prems Suc by simp_all
    ultimately have "findFirst tok cs = Some (take j cs, drop (j + length tok) cs)"
      using Cons.IH by blast
    with np Suc show ?thesis by simp
  qed
qed

lemma lazyBody_shape:
  "lazyBody acc cs = Some (g, t) \<Longrightarrow>
   \<exists>u ws post. cs = u @ [0x5D] @ ws @ closeToken @ post \<and> g = acc @ u @ [0x5D]
       \<and> t = ws @ closeToken \<and> (\<forall>c\<in>set ws. isSpace c)"
proof (induction cs arbitrary: acc)
  case Nil
  then show ?case by simp
next
  case (Cons c cs)
  show ?case
  proof (cases "c = 0x5D \<and> prefix closeToken (dropWhile isSpace cs)")
    case True
    then obtain post where post: "dropWhile isSpace cs = closeToken @ post"
      by (auto simp: prefix_def)
    have "cs = takeWhile isSpace cs @ closeToken @ post"
      using post by (metis takeWhile_dropWhile_id)
    moreover have "\<forall>x\<in>set (takeWhile isSpace cs). isSpace x"
      by (auto dest: set_takeWhileD)
    moreover from True Cons.prems have "g = acc @ [c]" "t = takeWhile isSpace cs @ closeToken" "c = 0x5D"
      by auto
    ultimately show ?thesis
      by (intro exI[of _ "[]"] exI[of _ "takeWhile isSpace cs"] exI[of _ post]) auto
  next
    case False
    with Cons.prems have "lazyBody (acc @ [c]) cs = Some (g, t)" by auto
    from Cons.IH[OF this] obtain u ws post where
      "cs = u @ [0x5D] @ ws @ closeToken @ post" "g = (acc @ [c]) @ u @ [0x5D]"
      "t = ws @ closeToken" "\<forall>c\<in>set ws. isSpace c" by blast
    then show ?thesis
      by (intro exI[of _ "c # u"] exI[of _ ws] exI[of _ post]) auto
  qed
qed

lemma lazyBody_finds:
  "(\<forall>c\<in>set ws. isSpace c) \<Longrightarrow> lazyBody acc (u @ [0x5D] @ ws @ closeToken @ x) \<noteq> None"
proof (induction u arbitrary: acc)
  case Nil
  have ns: "\<not> isSpace 0x3E" by (simp add: isSpace_def)
  have "dropWhile isSpace (ws @ closeToken @ x) = closeToken @ x"
    using Nil ns by (simp add: dropWhile_append3 closeToken_def js_def dropWhile_append)
  then show ?case by simp
next
  case (Cons c u)
  then show ?case by simp
qed


lemma matchHere_shape:
  assumes "matchHere cs = Some (m0, g)"
  shows "\<exists>ws body ws2 post. cs = m0 @ post \<and> m0 = openToken @ ws @ g @ ws2 @ closeToken
           \<and> g = 0x5B # body @ [0x5D] \<and> (\<forall>c\<in>set ws. isSpace c) \<and> (\<forall>c\<in>set ws2. isSpace c)"
proof -
  from assms have pre: "prefix openToken cs"
    by (auto simp: matchHere_def split: if_splits)
  define r where "r = drop (length openToken) cs"
  from pre have cs: "cs = openToken @ r"
    by (auto simp: r_def prefix_def)
  from assms pre obtain c body where dw: "dropWhile isSpace r = c # body" and c: "c = 0x5B"
    by (auto simp: matchHere_def Let_def r_def split: if_splits list.splits)
  from assms pre dw c obtain t where lb: "lazyBody [c] body = Some (g, t)"
    and m0: "m0 = openToken @ takeWhile isSpace r @ g @ t"
    by (auto simp: matchHere_def Let_def r_def split: if_splits list.splits option.splits)
  from lazyBody_shape[OF lb] obtain u ws2 post where
    body: "body = u @ [0x5D] @ ws2 @ closeToken @ post" and g: "g = [c] @ u @ [0x5D]"
    and t: "t = ws2 @ closeToken" and ws2: "\<forall>c\<in>set ws2. isSpace c" by blast
  define tw where "tw = takeWhile isSpace r"
  have r: "r = tw @ c # body"
    unfolding tw_def using dw by (metis takeWhile_dropWhile_id)
  have m0': "m0 = openToken @ tw @ g @ t"
    using m0 by (simp add: tw_def)
  have "cs = openToken @ tw @ c # body"
    using cs r by simp
  then have "cs = m0 @ post"
    using m0' g t body by simp
  moreover have "\<forall>x\<in>set (takeWhile isSpace r). isSpace x"
    by (auto dest: set_takeWhileD)
  ultimately show ?thesis
    using m0 g t ws2 c
    by (intro exI[of _ "takeWhile isSpace r"] exI[of _ u] exI[of _ ws2] exI[of _ post]) simp
qed

lemma matchHere_finds:
  assumes "\<forall>c\<in>set ws. isSpace c" "\<forall>c\<in>set ws2. isSpace c"
  shows "matchHere (openToken @ ws @ (0x5B # body @ [0x5D]) @ ws2 @ closeToken @ x) \<noteq> None"
proof -
  have ns: "\<not> isSpace 0x5B" by (simp add: isSpace_def)
  let ?r = "ws @ (0x5B # body @ [0x5D]) @ ws2 @ closeToken @ x"
  have dw: "dropWhile isSpace ?r = 0x5B # body @ [0x5D] @ ws2 @ closeToken @ x"
    using assms(1) ns by (simp add: dropWhile_append3)
  have "lazyBody [0x5B] (body @ [0x5D] @ ws2 @ closeToken @ x) \<noteq> None"
    using lazyBody_finds[OF assms(2)] by blast
  then obtain g t where "lazyBody [0x5B] (body @ [0x5D] @ ws2 @ closeToken @ x) = Some (g, t)"
    by auto
  then show ?thesis
    using dw by (simp add: matchHere_def Let_def)
qed

lemma matchHere_again:
  assumes "matchHere cs = Some (m0, g)"
  shows "matchHere (m0 @ x) \<noteq> None"
proof -
  from matchHere_shape[OF assms] obtain ws body ws2 where
    "m0 = openToken @ ws @ g @ ws2 @ closeToken" "g = 0x5B # body @ [0x5D]"
    "\<forall>c\<in>set ws. isSpace c" "\<forall>c\<in>set ws2. isSpace c" by blast
  then show ?thesis
    using matchHere_finds[of ws ws2 body x] by simp
qed

lemma regexFrom_first:
  "regexFrom i s = Some (k, m0, g) \<Longrightarrow>
   \<exists>pre post. k = i + length pre \<and> s = pre @ m0 @ post \<and> findFirst m0 s = Some (pre, post)
       \<and> matchHere (m0 @ post) = Some (m0, g)"
proof (induction s arbitrary: i)
  case Nil
  then show ?case by simp
next
  case (Cons c cs)
  show ?case
  proof (cases "matchHere (c # cs)")
    case (Some mg)
    with Cons.prems have mh: "matchHere (c # cs) = Some (m0, g)" and k: "k = i"
      by (auto split: prod.splits)
    from matchHere_shape[OF mh] obtain post where post: "c # cs = m0 @ post" by blast
    have pm: "prefix m0 (c # cs)"
      using post by (metis prefixI)
    have "drop (length m0) (c # cs) = post"
      using post by simp
    with pm have "findFirst m0 (c # cs) = Some ([], post)" by simp
    with post mh k show ?thesis
      by (intro exI[of _ "[]"] exI[of _ post]) simp
  next
    case None
    with Cons.prems have rf: "regexFrom (Suc i) cs = Some (k, m0, g)" by simp
    from Cons.IH[OF rf] obtain pre post where
      ih: "k = Suc i + length pre" "cs = pre @ m0 @ post" "findFirst m0 cs = Some (pre, post)"
          "matchHere (m0 @ post) = Some (m0, g)" by blast
    have "\<not> prefix m0 (c # cs)"
    proof
      assume "prefix m0 (c # cs)"
      then obtain x where "c # cs = m0 @ x" by (auto simp: prefix_def)
      with matchHere_again[OF ih(4), of x] None show False by simp
    qed
    with ih show ?thesis
      by (intro exI[of _ "c # pre"] exI[of _ post]) simp
  qed
qed

lemma findFirst_here: "findFirst tok (tok @ b) \<noteq> None"
proof (cases "tok @ b")
  case Nil
  then show ?thesis by simp
next
  case (Cons c cs)
  have "prefix tok (c # cs)"
    using Cons by (metis prefixI)
  then have "findFirst tok (c # cs) \<noteq> None" by simp
  with Cons show ?thesis by simp
qed

lemma findFirst_occurs: "findFirst tok (a @ tok @ b) \<noteq> None"
proof (induction a)
  case Nil
  show ?case using findFirst_here by simp
next
  case (Cons c a)
  then show ?case by (auto split: option.splits)
qed

lemma regexFrom_contains:
  assumes "regexFrom i s = Some r"
  shows "containsToken partialToken s"
proof -
  obtain k m0 g where r: "r = (k, m0, g)" by (cases r) auto
  from regexFrom_first[OF assms[unfolded r]] obtain pre post where
    s: "s = pre @ m0 @ post" and mh: "matchHere (m0 @ post) = Some (m0, g)" by blast
  from matchHere_shape[OF mh] obtain ws ws2 where "m0 = openToken @ ws @ g @ ws2 @ closeToken"
    by blast
  moreover have "openToken = partialToken @ [0x3A]"
    by (simp add: openToken_def partialToken_def js_def)
  ultimately have "s = pre @ partialToken @ ([0x3A] @ ws @ g @ ws2 @ closeToken @ post)"
    using s by simp
  then show ?thesis
    unfolding containsToken_def using findFirst_occurs by metis
qed

lemma trim_slice: "\<exists>a n. trim t = take n (drop a t)"
proof -
  have d: "\<And>P (xs :: jstring). dropWhile P xs = drop (length (takeWhile P xs)) xs"
    by (metis append_eq_conv_conj takeWhile_dropWhile_id)
  have r: "\<And>P (ys :: jstring). \<exists>n. rev (dropWhile P (rev ys)) = take n ys"
  proof -
    fix P and ys :: jstring
    have "rev (dropWhile P (rev ys)) = rev (drop (length (takeWhile P (rev ys))) (rev ys))"
      using d[of P "rev ys"] by simp
    also have "\<dots> = take (length ys - length (takeWhile P (rev ys))) ys"
      by (simp add: rev_drop)
    finally show "\<exists>n. rev (dropWhile P (rev ys)) = take n ys" by blast
  qed
  from r[of isSpace "dropWhile isSpace t"] obtain n where
    "trim t = take n (dropWhile isSpace t)" by (auto simp: trim_def)
  with d[of isSpace t] show ?thesis by metis
qed

lemma findFirst_Some_prefix:
  "findFirst tok s = Some (b, a) \<Longrightarrow> prefix tok (drop (length b) s)"
  by (drule findFirst_append) simp

lemma not_contains_trim_take:
  assumes "\<forall>i<k. \<not> prefix tok (drop i s)" "tok \<noteq> []"
  shows "\<not> containsToken tok (trim (take k s))"
proof
  assume "containsToken tok (trim (take k s))"
  then obtain b a where "findFirst tok (trim (take k s)) = Some (b, a)"
    by (auto simp: containsToken_def)
  then have p: "prefix tok (drop (length b) (trim (take k s)))"
    by (rule findFirst_Some_prefix)
  obtain a0 n where t: "trim (take k s) = take n (drop a0 (take k s))"
    using trim_slice by blast
  have "drop (length b) (take n (drop a0 (take k s))) = take (n - length b) (drop (length b) (drop a0 (take k s)))"
    by (rule drop_take)
  with p t have "prefix tok (take (n - length b) (drop (length b) (drop a0 (take k s))))"
    by simp
  then have "prefix tok (drop (length b) (drop a0 (take k s)))"
    by (meson prefix_order.trans take_is_prefix)
  moreover have "drop (length b) (drop a0 (take k s)) = take (k - (length b + a0)) (drop (length b + a0) s)"
    by (metis drop_drop drop_take)
  ultimately have p2: "prefix tok (take (k - (length b + a0)) (drop (length b + a0) s))"
    by simp
  then have "prefix tok (drop (length b + a0) s)"
    by (meson prefix_order.trans take_is_prefix)
  moreover have "length b + a0 < k"
  proof (rule ccontr)
    assume "\<not> length b + a0 < k"
    then have "take (k - (length b + a0)) (drop (length b + a0) s) = []" by simp
    with p2 assms(2) show False by simp
  qed
  ultimately show False using assms(1) by blast
qed

section \<open>Suggestion extraction\<close>

text \<open>
  C1 (amended). For a model message whose text ends with a marker block
  \<open><<<SUGGESTIONS: [...]>>>\<close>, when the match of the pattern (leftmost start, shortest
  bracketed literal) is that trailing block and the bracketed literal parses as a JSON array,
  extraction returns the text before the block, trimmed, and the parsed array as the
  suggestion list. For a model message whose text does not contain \<open><<<SUGGESTIONS\<close>,
  extraction returns the text unchanged and an empty list.
\<close>

theorem extract_trailing_block:
  assumes "role m = MODEL"
  shows "(content m = pre @ block \<and> regexMatch (content m) = Some (length pre, block, arr)
            \<and> parse arr = Some (JArray xs)
          \<longrightarrow> extractSuggestions parse m = (trim pre, xs))
       \<and> (\<not> containsToken partialToken (content m)
          \<longrightarrow> extractSuggestions parse m = (content m, []))"
proof (intro conjI impI)
  assume h: "content m = pre @ block \<and> regexMatch (content m) = Some (length pre, block, arr)
            \<and> parse arr = Some (JArray xs)"
  then have c: "content m = pre @ block"
    and rm: "regexMatch (content m) = Some (length pre, block, arr)"
    and pa: "parse arr = Some (JArray xs)" by blast+
  from rm have rf: "regexFrom 0 (content m) = Some (length pre, block, arr)"
    unfolding regexMatch_def .
  from regexFrom_first[OF rf] obtain pre' post where
    p: "length pre = length pre'" "content m = pre' @ block @ post"
       "findFirst block (content m) = Some (pre', post)" by auto
  from p(1,2) c have "pre' = pre" "post = []" by auto
  with p(3) have "replaceFirst block (content m) = pre"
    unfolding replaceFirst_def by simp
  with assms rm pa show "extractSuggestions parse m = (trim pre, xs)"
    unfolding extractSuggestions_def by simp
next
  assume n: "\<not> containsToken partialToken (content m)"
  have "regexMatch (content m) = None"
  proof (cases "regexMatch (content m)")
    case (Some r)
    then have "containsToken partialToken (content m)"
      unfolding regexMatch_def by (rule regexFrom_contains)
    with n show ?thesis by simp
  qed simp
  with assms n show "extractSuggestions parse m = (content m, [])"
    by (simp add: extractSuggestions_def)
qed

text \<open>
  The theorem at a message ending with a block of two suggestions, and at a streaming
  message without the token.
\<close>

theorem extract_trailing_block_witness:
  \<open>role (modelMessage textTrailing False) = MODEL
   \<and> content (modelMessage textTrailing False) = js ''Sure. '' @ js ''<<<SUGGESTIONS: ["a", "b"]>>>''
   \<and> regexMatch (content (modelMessage textTrailing False))
       = Some (length (js ''Sure. ''), js ''<<<SUGGESTIONS: ["a", "b"]>>>'', js ''["a", "b"]'')
   \<and> JSON_parse (js ''["a", "b"]'') = Some (JArray [JString (js ''a''), JString (js ''b'')])
   \<and> extractSuggestions JSON_parse (modelMessage textTrailing False)
       = (js ''Sure.'', [JString (js ''a''), JString (js ''b'')])
   \<and> \<not> containsToken partialToken (content (modelMessage textPlain True))
   \<and> extractSuggestions JSON_parse (modelMessage textPlain True) = (textPlain, [])\<close>
proof -
  let ?m = "modelMessage textTrailing False"
  let ?p = "modelMessage textPlain True"
  have r: "role ?m = MODEL" "role ?p = MODEL"
    by (simp_all add: modelMessage_def)
  have c: \<open>content ?m = js ''Sure. '' @ js ''<<<SUGGESTIONS: ["a", "b"]>>>''\<close>
    by (simp add: modelMessage_def textTrailing_def js_def)
  have m: \<open>regexMatch (content ?m)
       = Some (length (js ''Sure. ''), js ''<<<SUGGESTIONS: ["a", "b"]>>>'', js ''["a", "b"]'')\<close>
    by code_simp
  have j: \<open>JSON_parse (js ''["a", "b"]'') = Some (JArray [JString (js ''a''), JString (js ''b'')])\<close>
    by code_simp
  have t: "trim (js ''Sure. '') = js ''Sure.''"
    by code_simp
  have n: "\<not> containsToken partialToken (content ?p)"
    by code_simp
  have cp: "content ?p = textPlain"
    by (simp add: modelMessage_def)
  from extract_trailing_block[OF r(1), of "js ''Sure. ''" _ _ JSON_parse] c m j t
  have e1: "extractSuggestions JSON_parse ?m = (js ''Sure.'', [JString (js ''a''), JString (js ''b'')])"
    by simp
  from extract_trailing_block[OF r(2), of _ _ _ JSON_parse] n cp
  have e2: "extractSuggestions JSON_parse ?p = (textPlain, [])"
    by simp
  from r c m j e1 n e2 show ?thesis by blast
qed

text \<open>
  C1 as stated fails where the literal holds \<open>]>>>\<close> inside a string: the text is one
  well-formed block whose literal parses as the array of the string \<open>]>>>\<close>, but the lazy
  pattern stops at the first \<open>]>>>\<close>, the shorter literal does not parse, and extraction
  returns the whole text and no suggestion.
\<close>

theorem extract_trailing_block_counterexample:
  \<open>textNested = openToken @ js '' '' @ js ''["]>>>"]'' @ closeToken
   \<and> JSON_parse (js ''["]>>>"]'') = Some (JArray [JString (js '']>>>'')])
   \<and> extractSuggestions JSON_parse (modelMessage textNested False) = (textNested, [])
   \<and> extractSuggestions JSON_parse (modelMessage textNested False)
       \<noteq> (trim [], [JString (js '']>>>'')])\<close>
  by code_simp

text \<open>
  C6 (amended). For a streaming model message in whose content the pattern has no match
  and the token \<open><<<SUGGESTIONS\<close> first occurs at offset \<open>k\<close>, the display text is the
  content truncated at \<open>k\<close> and then trimmed of white space at both ends; the token does
  not occur in it.
\<close>

theorem streaming_partial_marker_hidden:
  assumes "role m = MODEL" and "isStreaming m" and "regexMatch (content m) = None"
    and "prefix partialToken (drop k (content m))"
    and "\<forall>i<k. \<not> prefix partialToken (drop i (content m))"
  shows "extractSuggestions parse m = (trim (take k (content m)), [])
       \<and> \<not> containsToken partialToken (fst (extractSuggestions parse m))"
proof -
  have ne: "partialToken \<noteq> []"
    by (simp add: partialToken_def js_def)
  have "drop k (content m) \<noteq> []"
    using assms(4) ne by auto
  then have "k \<le> length (content m)" by simp
  with assms(4,5) have ff: "findFirst partialToken (content m)
      = Some (take k (content m), drop (k + length partialToken) (content m))"
    by (rule findFirst_at)
  then have "containsToken partialToken (content m)"
    and "splitHead partialToken (content m) = take k (content m)"
    by (simp_all add: containsToken_def splitHead_def)
  with assms(1,2,3) have e: "extractSuggestions parse m = (trim (take k (content m)), [])"
    by (simp add: extractSuggestions_def)
  moreover have "\<not> containsToken partialToken (trim (take k (content m)))"
    using assms(5) ne by (rule not_contains_trim_take)
  ultimately show ?thesis by simp
qed

text \<open>The theorem at a streaming message whose block has been opened but not closed.\<close>

theorem streaming_partial_marker_hidden_witness:
  \<open>role (modelMessage textPartial True) = MODEL \<and> isStreaming (modelMessage textPartial True)
   \<and> regexMatch (content (modelMessage textPartial True)) = None
   \<and> prefix partialToken (drop 3 (content (modelMessage textPartial True)))
   \<and> \<not> prefix partialToken (drop 0 (content (modelMessage textPartial True)))
   \<and> \<not> prefix partialToken (drop 1 (content (modelMessage textPartial True)))
   \<and> \<not> prefix partialToken (drop 2 (content (modelMessage textPartial True)))
   \<and> extractSuggestions JSON_parse (modelMessage textPartial True) = (js ''Hi'', [])\<close>
proof -
  let ?m = "modelMessage textPartial True"
  have a: "role ?m = MODEL" "isStreaming ?m"
    by (simp_all add: modelMessage_def)
  have b: "regexMatch (content ?m) = None"
    by code_simp
  have c: "prefix partialToken (drop 3 (content ?m))"
    by code_simp
  have d0: "\<not> prefix partialToken (drop 0 (content ?m))"
    by code_simp
  have d1: "\<not> prefix partialToken (drop 1 (content ?m))"
    by code_simp
  have d2: "\<not> prefix partialToken (drop 2 (content ?m))"
    by code_simp
  have d: "\<forall>i<3. \<not> prefix partialToken (drop i (content ?m))"
  proof (intro allI impI)
    fix i :: nat assume "i < 3"
    then consider "i = 0" | "i = 1" | "i = 2" by linarith
    then show "\<not> prefix partialToken (drop i (content ?m))"
      using d0 d1 d2 by cases simp_all
  qed
  have t: "trim (take 3 (content ?m)) = js ''Hi''"
    by code_simp
  from streaming_partial_marker_hidden[OF a b c d, of JSON_parse] t
  have "extractSuggestions JSON_parse ?m = (js ''Hi'', [])" by simp
  with a b c d0 d1 d2 show ?thesis by blast
qed

text \<open>
  C6 as stated fails where white space stands before the token: the content truncated at
  the token's offset ends with a blank, which the display text has lost.
\<close>

theorem streaming_partial_marker_counterexample:
  "role (modelMessage textPartial True) = MODEL \<and> isStreaming (modelMessage textPartial True)
   \<and> regexMatch (content (modelMessage textPartial True)) = None
   \<and> take 3 (content (modelMessage textPartial True)) @ partialToken @ js '': [\"a''
       = content (modelMessage textPartial True)
   \<and> take 3 (content (modelMessage textPartial True)) = js ''Hi ''
   \<and> fst (extractSuggestions JSON_parse (modelMessage textPartial True))
       \<noteq> take 3 (content (modelMessage textPartial True))"
  by code_simp

text \<open>
  C7 (amended). For a model message, extraction returns the original text and an empty
  list when the pattern matches and \<open>JSON.parse\<close> throws on the matched literal, and when the
  pattern has no match and the message is not streaming.
\<close>

theorem malformed_block_ignored:
  assumes "role m = MODEL"
    and "(regexMatch (content m) = Some (k, m0, g) \<and> parse g = None)
         \<or> (regexMatch (content m) = None \<and> \<not> isStreaming m)"
  shows "extractSuggestions parse m = (content m, [])"
  using assms by (auto simp: extractSuggestions_def)

text \<open>
  The theorem at a block with a trailing comma in the array, and at a finished message
  whose block holds no array.
\<close>

theorem malformed_block_ignored_witness:
  \<open>role (modelMessage textBadJson True) = MODEL
   \<and> regexMatch (content (modelMessage textBadJson True))
       = Some (3, js ''<<<SUGGESTIONS: ["a", ]>>>'', js ''["a", ]'')
   \<and> JSON_parse (js ''["a", ]'') = None
   \<and> extractSuggestions JSON_parse (modelMessage textBadJson True) = (textBadJson, [])
   \<and> role (modelMessage textNoArray False) = MODEL
   \<and> regexMatch (content (modelMessage textNoArray False)) = None
   \<and> \<not> isStreaming (modelMessage textNoArray False)
   \<and> extractSuggestions JSON_parse (modelMessage textNoArray False) = (textNoArray, [])\<close>
proof -
  let ?a = "modelMessage textBadJson True"
  let ?b = "modelMessage textNoArray False"
  have r: "role ?a = MODEL" "role ?b = MODEL" "\<not> isStreaming ?b"
    "content ?a = textBadJson" "content ?b = textNoArray"
    by (simp_all add: modelMessage_def)
  have m: \<open>regexMatch (content ?a) = Some (3, js ''<<<SUGGESTIONS: ["a", ]>>>'', js ''["a", ]'')\<close>
    by code_simp
  have j: \<open>JSON_parse (js ''["a", ]'') = None\<close>
    by code_simp
  have n: "regexMatch (content ?b) = None"
    by code_simp
  from malformed_block_ignored[OF r(1), of 3 _ _ JSON_parse] m j r(4)
  have e1: "extractSuggestions JSON_parse ?a = (textBadJson, [])" by simp
  from malformed_block_ignored[OF r(2), of _ _ _ JSON_parse] n r(3,5)
  have e2: "extractSuggestions JSON_parse ?b = (textNoArray, [])" by simp
  from r m j n e1 e2 show ?thesis by blast
qed

text \<open>
  C7 as stated fails while the message is streaming: a block whose span is not an array
  is not matched by the pattern, and the rule for an open block cuts the text at the token.
\<close>

theorem malformed_block_counterexample:
  "role (modelMessage textNoArray True) = MODEL
   \<and> content (modelMessage textNoArray True) = js ''Hi '' @ openToken @ js '' oops'' @ closeToken
   \<and> JSON_parse (js '' oops'') = None
   \<and> extractSuggestions JSON_parse (modelMessage textNoArray True) = (js ''Hi'', [])
   \<and> extractSuggestions JSON_parse (modelMessage textNoArray True)
       \<noteq> (content (modelMessage textNoArray True), [])"
  by code_simp

section \<open>Regenerate and edit\<close>






text \<open>
  C5. The claim asks that edit and regenerate do nothing while a send is outstanding.
  \<open>handleRegenerate\<close> returns at once when \<open>isLoading\<close> is set; \<open>handleEdit\<close> has no such
  test. With the second send in flight, regenerate leaves the state as it is, but edit on
  \<open>U2\<close> replaces the session, cuts the message list and starts a second send beside the
  first.
\<close>

theorem edit_while_loading:
  "isLoading secondSendInFlight
   \<and> handleRegenerate (readingsAt 300) secondSendInFlight = secondSendInFlight
   \<and> messages secondSendInFlight
       = [exU1, exM1, exU2,
          \<lparr>id = js ''201'', role = MODEL, content = [], timestamp = 200, isStreaming = True\<rparr>]
   \<and> chatSession secondSendInFlight = Some (Chat None)
   \<and> messages (handleEdit (js ''200'') (js ''new'') (readingsAt 300) secondSendInFlight)
       = [exU1, exM1,
          \<lparr>id = js ''300'', role = USER, content = js ''new'', timestamp = 300,
            isStreaming = False\<rparr>,
          \<lparr>id = js ''301'', role = MODEL, content = [], timestamp = 300, isStreaming = True\<rparr>]
   \<and> chatSession (handleEdit (js ''200'') (js ''new'') (readingsAt 300) secondSendInFlight)
       = Some (Chat (Some [Content USER [js ''hi''], Content MODEL [textTrailing]]))
   \<and> map sentText (sends (handleEdit (js ''200'') (js ''new'') (readingsAt 300) secondSendInFlight))
       = [js ''more'', js ''new'']"
  by code_simp

section \<open>The session and the message list\<close>

lemma clearStreaming_length [simp]: "length (clearStreaming a ms) = length ms"
  by (induction ms) simp_all

lemma clearStreaming_pairs [simp]:
  "map (\<lambda>m. Content (role m) [content m]) (clearStreaming a ms)
   = map (\<lambda>m. Content (role m) [content m]) ms"
  by (induction ms) simp_all

lemma sessionHistory_same:
  "chatSession s' = chatSession s \<Longrightarrow> turns s' = turns s \<Longrightarrow> sessionHistory s' = sessionHistory s"
  by (simp add: sessionHistory_def split: option.splits Chat.splits)

lemma sync_init: "oneSendAtMost initApp \<and> inSync initApp"
  by (simp add: oneSendAtMost_def inSync_def initApp_def sessionHistory_def settledPrefix_def)

lemma sync_send:
  assumes "oneSendAtMost s" "inSync s" "\<not> isLoading s"
  shows "oneSendAtMost (handleSendMessage t False r s) \<and> inSync (handleSendMessage t False r s)"
proof -
  from assms(1,3) have e: "sends s = []"
    by (auto simp: oneSendAtMost_def split: list.splits)
  from assms(1) obtain c where c: "chatSession s = Some c"
    by (auto simp: oneSendAtMost_def)
  show ?thesis
    using assms e c
    by (simp add: oneSendAtMost_def inSync_def handleSendMessage_def Let_def sessionHistory_def
        settledPrefix_def nth_append split: Chat.splits)
qed


lemma sync_chunk:
  assumes "oneSendAtMost s" "inSync s"
  shows "oneSendAtMost (streamChunk 0 txt s) \<and> inSync (streamChunk 0 txt s)"
proof (cases "sends s = [] \<or> txt = []")
  case True
  then have "streamChunk 0 txt s = s"
    by (auto simp: streamChunk_def)
  with assms show ?thesis by simp
next
  case False
  with assms(1) obtain cur where cur: "sends s = [cur]"
    by (auto simp: oneSendAtMost_def split: list.splits)
  from assms(1) cur have ms: "messages s \<noteq> []" "2 \<le> length (messages s)"
    "id (last (messages s)) = aiMessageId cur" "\<not> stopGeneration s"
    by (auto simp: oneSendAtMost_def)
  define acc where "acc = accumulatedText cur @ txt"
  define ms' where "ms' = butlast (messages s) @ [(last (messages s))\<lparr>content := acc\<rparr>]"
  have st: "streamChunk 0 txt s
      = s\<lparr>sends := [cur\<lparr>accumulatedText := acc\<rparr>], messages := ms'\<rparr>"
    using False cur ms by (simp add: streamChunk_def setLastContent_def Let_def acc_def ms'_def)
  have len: "length ms' = length (messages s)"
    using ms(1) by (simp add: ms'_def)
  have tk: "take (length (messages s) - 2) ms' = take (length (messages s) - 2) (messages s)"
    using ms(1,2) by (simp add: ms'_def butlast_conv_take min_def)
  have nth: "ms' ! (length (messages s) - 2) = messages s ! (length (messages s) - 2)"
    using ms(1,2) by (simp add: ms'_def nth_append nth_butlast)
  have lst: "last ms' = (last (messages s))\<lparr>content := acc\<rparr>"
    by (simp add: ms'_def)
  have sh: "sessionHistory (s\<lparr>sends := [cur\<lparr>accumulatedText := acc\<rparr>], messages := ms'\<rparr>)
      = sessionHistory s"
    by (rule sessionHistory_same) simp_all
  show ?thesis
    unfolding st using assms cur len tk nth lst sh
    by (simp add: oneSendAtMost_def inSync_def settledPrefix_def)
qed

lemma pairs_last_two:
  assumes "2 \<le> length ms"
  shows "map f ms = map f (take (length ms - 2) ms) @ [f (ms ! (length ms - 2)), f (last ms)]"
proof -
  have "ms = take (length ms - 2) ms @ drop (length ms - 2) ms" by simp
  moreover have "drop (length ms - 2) ms = [ms ! (length ms - 2), last ms]"
  proof -
    from assms obtain ys b where ys: "ms = ys @ [b]"
      by (cases ms rule: rev_cases) auto
    with assms obtain xs a where "ys = xs @ [a]"
      by (cases ys rule: rev_cases) auto
    with ys have "ms = xs @ [a, b]" by simp
    then show ?thesis by (simp add: nth_append)
  qed
  ultimately show ?thesis by (metis list.simps(8,9) map_append)
qed

lemma sync_end:
  assumes "oneSendAtMost s" "inSync s"
  shows "oneSendAtMost (streamEnd 0 s) \<and> inSync (streamEnd 0 s)"
proof (cases "sends s")
  case Nil
  then have "streamEnd 0 s = s"
    by (simp add: streamEnd_def)
  with assms show ?thesis by simp
next
  case (Cons cur rest)
  with assms(1) have cur: "sends s = [cur]"
    by (auto simp: oneSendAtMost_def split: list.splits)
  from assms(1) cur have f: "sendSession s = [sessionNo s]" "2 \<le> length (messages s)"
    "role (messages s ! (length (messages s) - 2)) = USER"
    "content (messages s ! (length (messages s) - 2)) = sentText cur"
    "role (last (messages s)) = MODEL" "content (last (messages s)) = accumulatedText cur"
    "list_all readToEnd (turns s)" "chatSession s \<noteq> None"
    by (auto simp: oneSendAtMost_def)
  from f(8) obtain seed where seed: "chatSession s = Some (Chat seed)"
    by (cases "chatSession s") (auto intro: Chat.exhaust)
  let ?h = "\<lambda>m. Content (role m) [content m]"
  have old: "(case seed of None \<Rightarrow> [] | Some h \<Rightarrow> h)
        @ concat (map (\<lambda>t. [Content USER [sent t], Content MODEL [received t]]) (turns s))
      = map ?h (take (length (messages s) - 2) (messages s))"
    using assms(2) cur seed f(7) by (simp add: inSync_def sessionHistory_def settledPrefix_def)
  have all: "map ?h (messages s)
      = map ?h (take (length (messages s) - 2) (messages s))
        @ [Content USER [sentText cur], Content MODEL [accumulatedText cur]]"
    using pairs_last_two[OF f(2), of ?h] f(3,4,5,6) by simp
  show ?thesis
    using cur f seed old all assms(1)
    by (simp add: streamEnd_def leaveLoop_def finish_def recordTurn_def dropSend_def
        oneSendAtMost_def inSync_def sessionHistory_def settledPrefix_def)
qed


lemma sync_regenerate:
  assumes "oneSendAtMost s" "inSync s"
  shows "oneSendAtMost (handleRegenerate r s) \<and> inSync (handleRegenerate r s)"
proof (cases "handleRegenerate r s = s")
  case True
  with assms show ?thesis by simp
next
  case False
  define ms where "ms = messages s"
  define k where "k = length ms - 2"
  from False have c: "ms \<noteq> []" "2 \<le> length ms" "\<not> isLoading s" "role (ms ! k) = USER"
    by (auto simp: handleRegenerate_def Let_def ms_def k_def split: if_splits)
  from False have e: "handleRegenerate r s
      = handleSendMessage (content (ms ! k)) True r
          ((startChat (Some (historyForSdk (take k ms))) s)\<lparr>messages := take (length ms - 1) ms\<rparr>)"
    by (auto simp: handleRegenerate_def Let_def ms_def k_def split: if_splits)
  from assms(1) c(3) have n: "sends s = []" "sendSession s = []"
    by (auto simp: oneSendAtMost_def split: list.splits)
  have t1: "take k (take (length ms - 1) ms) = take k ms"
    by (simp add: k_def min_def)
  have l1: "length (take (length ms - 1) ms) = Suc k"
    using c(2) by (simp add: k_def)
  have n1: "(take (length ms - 1) ms) ! k = ms ! k"
    using c(2) by (simp add: k_def)
  show ?thesis
    unfolding e using n t1 l1 n1 c(4)
    by (simp add: oneSendAtMost_def inSync_def handleSendMessage_def startChat_def Let_def
        sessionHistory_def settledPrefix_def historyForSdk_def nth_append)
qed

lemma sync_edit:
  assumes "oneSendAtMost s" "inSync s" "\<not> isLoading s"
  shows "oneSendAtMost (handleEdit msgId t r s) \<and> inSync (handleEdit msgId t r s)"
proof (cases "handleEdit msgId t r s = s")
  case True
  with assms show ?thesis by simp
next
  case False
  then obtain k where k: "findIndex (\<lambda>m. id m = msgId) (messages s) = Some k"
    by (cases "findIndex (\<lambda>m. id m = msgId) (messages s)") (auto simp: handleEdit_def)
  from False k have ru: "role (messages s ! k) = USER"
    by (auto simp: handleEdit_def split: if_splits)
  from k ru have e: "handleEdit msgId t r s
      = handleSendMessage t False r
          ((startChat (Some (historyForSdk (take k (messages s)))) s)\<lparr>messages := take k (messages s)\<rparr>)"
    by (simp add: handleEdit_def Let_def)
  from assms(1,3) have n: "sends s = []" "sendSession s = []"
    by (auto simp: oneSendAtMost_def split: list.splits)
  have tk: "take (min (length (messages s)) k) (messages s) = take k (messages s)"
    by (simp add: min_def)
  show ?thesis
    unfolding e using n tk
    by (simp add: oneSendAtMost_def inSync_def handleSendMessage_def startChat_def Let_def
        sessionHistory_def settledPrefix_def historyForSdk_def nth_append)
qed

lemma sync_clear:
  assumes "oneSendAtMost s" "\<not> isLoading s"
  shows "oneSendAtMost (handleClearChat True s) \<and> inSync (handleClearChat True s)"
  using assms
  by (auto simp: oneSendAtMost_def inSync_def handleClearChat_def startChat_def
      sessionHistory_def settledPrefix_def split: list.splits)

lemma sync_step:
  assumes "oneSendAtMost s" "inSync s" "whileIdle e s"
  shows "oneSendAtMost (step e s) \<and> inSync (step e s)"
proof (cases e)
  case (Submit inp r)
  with assms show ?thesis
    using sync_send[of s inp r] by (simp add: handleSubmit_def)
next
  case (ChipClick t r)
  with assms show ?thesis
    using sync_send[of s t r] by (simp add: onSuggestionClick_def)
next
  case (Fragment frag)
  with assms show ?thesis
    using sync_chunk[of s frag] by simp
next
  case StreamEnd
  with assms show ?thesis
    using sync_end[of s] by simp
next
  case (Regenerate r)
  with assms show ?thesis
    using sync_regenerate[of s r] by simp
next
  case (Edit msgId t r)
  with assms show ?thesis
    using sync_edit[of s msgId t r] by simp
next
  case ClearChat
  with assms show ?thesis
    using sync_clear[of s] by simp
qed

lemma sync_run:
  "oneSendAtMost s \<Longrightarrow> inSync s \<Longrightarrow> orderly es s \<Longrightarrow>
   oneSendAtMost (fold step es s) \<and> inSync (fold step es s)"
proof (induction es arbitrary: s)
  case Nil
  then show ?case by simp
next
  case (Cons e es)
  from Cons.prems have "oneSendAtMost (step e s) \<and> inSync (step e s)"
    by (intro sync_step) simp_all
  with Cons.prems Cons.IH[of "step e s"] show ?case by simp
qed

lemma handleSendMessage_messages:
  "messages (handleSendMessage t True r s)
     = messages s @ [\<lparr>id = toString (nowAi r + 1), role = MODEL, content = [],
                       timestamp = dateAi r, isStreaming = True\<rparr>]"
  "messages (handleSendMessage t False r s)
     = messages s @ [\<lparr>id = toString (nowUser r), role = USER, content = t,
                       timestamp = dateUser r, isStreaming = False\<rparr>,
                     \<lparr>id = toString (nowAi r + 1), role = MODEL, content = [],
                       timestamp = dateAi r, isStreaming = True\<rparr>]"
  by (simp_all add: handleSendMessage_def Let_def split: option.splits)

lemma handleSendMessage_session:
  "chatSession s = Some c \<Longrightarrow> chatSession (handleSendMessage t b r s) = Some c"
  "chatSession s = Some c \<Longrightarrow> turns (handleSendMessage t b r s) = turns s"
  by (simp_all add: handleSendMessage_def Let_def)

text \<open>
  C10 (amended). In every run from the mounted application in which sends, edits and
  clears are issued only while no send is in flight and every stream is read to its end,
  the history of the session (its seed, then the user text and the model text of every
  turn run on it) is at every point the role and text of the messages in the list,
  without the exchange in flight. And in any state, when regenerate or edit acts, the
  session it creates has run no turn and is seeded with exactly the role and text of the
  messages that stay in the list before the exchange in flight.
\<close>

theorem session_history_in_sync:
  "(orderly es initApp \<longrightarrow>
      sessionHistory (fold step es initApp)
        = Some (map (\<lambda>m. Content (role m) [content m]) (settledPrefix (fold step es initApp))))
   \<and> (handleRegenerate r s \<noteq> s \<longrightarrow>
      chatSession (handleRegenerate r s)
        = Some (Chat (Some (map (\<lambda>m. Content (role m) [content m])
            (take (length (messages (handleRegenerate r s)) - 2) (messages (handleRegenerate r s))))))
      \<and> turns (handleRegenerate r s) = [])
   \<and> (handleEdit msgId t r s \<noteq> s \<longrightarrow>
      chatSession (handleEdit msgId t r s)
        = Some (Chat (Some (map (\<lambda>m. Content (role m) [content m])
            (take (length (messages (handleEdit msgId t r s)) - 2) (messages (handleEdit msgId t r s))))))
      \<and> turns (handleEdit msgId t r s) = [])"
proof (intro conjI impI)
  assume "orderly es initApp"
  with sync_init sync_run[of initApp es] have "inSync (fold step es initApp)"
    by blast
  then show "sessionHistory (fold step es initApp)
        = Some (map (\<lambda>m. Content (role m) [content m]) (settledPrefix (fold step es initApp)))"
    by (simp add: inSync_def)
next
  assume a: "handleRegenerate r s \<noteq> s"
  define ms where "ms = messages s"
  define k where "k = length ms - 2"
  from a have c: "ms \<noteq> []" "2 \<le> length ms"
    by (auto simp: handleRegenerate_def Let_def ms_def split: if_splits)
  from a have e: "handleRegenerate r s
      = handleSendMessage (content (ms ! k)) True r
          ((startChat (Some (historyForSdk (take k ms))) s)\<lparr>messages := take (length ms - 1) ms\<rparr>)"
    by (auto simp: handleRegenerate_def Let_def ms_def k_def split: if_splits)
  have t1: "take k (take (length ms - 1) ms) = take k ms"
    by (simp add: k_def min_def)
  have l1: "length (take (length ms - 1) ms) = Suc k"
    using c by (simp add: k_def)
  show "chatSession (handleRegenerate r s)
        = Some (Chat (Some (map (\<lambda>m. Content (role m) [content m])
            (take (length (messages (handleRegenerate r s)) - 2) (messages (handleRegenerate r s))))))"
    unfolding e using t1 l1
    by (simp add: handleSendMessage_messages handleSendMessage_session startChat_def
        historyForSdk_def)
  show "turns (handleRegenerate r s) = []"
    unfolding e by (simp add: handleSendMessage_session startChat_def)
next
  assume a: "handleEdit msgId t r s \<noteq> s"
  then obtain k where k: "findIndex (\<lambda>m. id m = msgId) (messages s) = Some k"
    by (cases "findIndex (\<lambda>m. id m = msgId) (messages s)") (auto simp: handleEdit_def)
  from a k have ru: "role (messages s ! k) = USER"
    by (auto simp: handleEdit_def split: if_splits)
  from k ru have e: "handleEdit msgId t r s
      = handleSendMessage t False r
          ((startChat (Some (historyForSdk (take k (messages s)))) s)\<lparr>messages := take k (messages s)\<rparr>)"
    by (simp add: handleEdit_def Let_def)
  have tk: "take (min (length (messages s)) k) (messages s) = take k (messages s)"
    by (simp add: min_def)
  show "chatSession (handleEdit msgId t r s)
        = Some (Chat (Some (map (\<lambda>m. Content (role m) [content m])
            (take (length (messages (handleEdit msgId t r s)) - 2) (messages (handleEdit msgId t r s))))))"
    unfolding e using tk
    by (simp add: handleSendMessage_messages handleSendMessage_session startChat_def
        historyForSdk_def)
  show "turns (handleEdit msgId t r s) = []"
    unfolding e by (simp add: handleSendMessage_session startChat_def)
qed

text \<open>
  The theorem at a run of three exchanges with a chip click, a regenerate and an edit, and
  at regenerate and edit of \<open>U2\<close> after two finished exchanges.
\<close>

theorem session_history_in_sync_witness:
  "orderly exampleRun initApp
   \<and> settledPrefix (fold step exampleRun initApp) = [exU1, exM1]
   \<and> sessionHistory (fold step exampleRun initApp)
       = Some [Content USER [js ''hi''], Content MODEL [textTrailing]]
   \<and> handleRegenerate (readingsAt 300) afterSecondExchange \<noteq> afterSecondExchange
   \<and> chatSession (handleRegenerate (readingsAt 300) afterSecondExchange)
       = Some (Chat (Some [Content USER [js ''hi''], Content MODEL [textTrailing]]))
   \<and> handleEdit (js ''200'') (js ''again'') (readingsAt 300) afterSecondExchange \<noteq> afterSecondExchange
   \<and> chatSession (handleEdit (js ''200'') (js ''again'') (readingsAt 300) afterSecondExchange)
       = Some (Chat (Some [Content USER [js ''hi''], Content MODEL [textTrailing]]))"
proof -
  let ?g = "handleRegenerate (readingsAt 300) afterSecondExchange"
  let ?e = "handleEdit (js ''200'') (js ''again'') (readingsAt 300) afterSecondExchange"
  have o: "orderly exampleRun initApp"
    by code_simp
  have sp: "settledPrefix (fold step exampleRun initApp) = [exU1, exM1]"
    by code_simp
  have n: "?g \<noteq> afterSecondExchange" "?e \<noteq> afterSecondExchange"
    by code_simp+
  have p: "take (length (messages ?g) - 2) (messages ?g) = [exU1, exM1]"
    "take (length (messages ?e) - 2) (messages ?e) = [exU1, exM1]"
    by code_simp+
  have f: "map (\<lambda>m. Content (role m) [content m]) [exU1, exM1]
      = [Content USER [js ''hi''], Content MODEL [textTrailing]]"
    by (simp add: exU1_def exM1_def)
  note t = session_history_in_sync[of exampleRun "readingsAt 300" afterSecondExchange
      "js ''200''" "js ''again''"]
  from t o have h: "sessionHistory (fold step exampleRun initApp)
      = Some (map (\<lambda>m. Content (role m) [content m]) (settledPrefix (fold step exampleRun initApp)))"
    by blast
  from t n(1) have g: "chatSession ?g = Some (Chat (Some (map (\<lambda>m. Content (role m) [content m])
      (take (length (messages ?g) - 2) (messages ?g)))))"
    by blast
  from t n(2) have e: "chatSession ?e = Some (Chat (Some (map (\<lambda>m. Content (role m) [content m])
      (take (length (messages ?e) - 2) (messages ?e)))))"
    by blast
  from h g e show ?thesis
    unfolding sp p f using o sp n by blast
qed

text \<open>
  C10 as stated fails after a failed send. The stream of the first send throws before its
  first fragment; nothing is in flight afterwards, and the list holds the user message and
  a model message whose text is the failure marker. That text is written by the \<open>catch\<close>
  block and was never given to the session or received from it: the session has no seed
  and has run one turn, in which \<open>hi\<close> was sent and nothing received. Whatever the
  vendor keeps of that turn, its history is not the list.
\<close>

theorem session_sync_counterexample:
  "sends afterFailure = []
   \<and> map (\<lambda>m. Content (role m) [content m]) (settledPrefix afterFailure)
       = [Content USER [js ''hi''], Content MODEL [failureMarker]]
   \<and> chatSession afterFailure = Some (Chat None)
   \<and> turns afterFailure = [\<lparr>sent = js ''hi'', received = [], readToEnd = False\<rparr>]
   \<and> failureMarker \<noteq> js ''hi'' \<and> failureMarker \<noteq> []
   \<and> sessionHistory afterFailure
       \<noteq> Some (map (\<lambda>m. Content (role m) [content m]) (settledPrefix afterFailure))"
  by code_simp

section \<open>Streaming\<close>

text \<open>
  C4. The claim asks for at most one streaming message in every reachable state, sends by
  suggestion chips included. \<open>handleSubmit\<close> of the input box does not send while
  \<open>isLoading\<close> is set, but \<open>handleSendMessage\<close> itself has no such test and the chips call
  it directly. After the first exchange the chips \<open>a\<close> and \<open>b\<close> are shown; they stay shown
  while the send of \<open>a\<close> is in flight, and the click on \<open>b\<close> then leaves two streaming
  messages.
\<close>

theorem two_streaming_after_chip_clicks:
  "chips JSON_parse (messages afterFirstExchange ! 1) = [JString (js ''a''), JString (js ''b'')]
   \<and> streamingCount afterFirstExchange = 0
   \<and> isLoading (onSuggestionClick (js ''a'') (readingsAt 200) afterFirstExchange)
   \<and> chips JSON_parse (messages (onSuggestionClick (js ''a'') (readingsAt 200) afterFirstExchange) ! 1)
       = [JString (js ''a''), JString (js ''b'')]
   \<and> map isStreaming (messages (onSuggestionClick (js ''b'') (readingsAt 300)
         (onSuggestionClick (js ''a'') (readingsAt 200) afterFirstExchange)))
       = [False, False, False, True, False, True]
   \<and> streamingCount (onSuggestionClick (js ''b'') (readingsAt 300)
         (onSuggestionClick (js ''a'') (readingsAt 200) afterFirstExchange)) = 2"
  by code_simp

text \<open>
  The fragments of one running send, delivered while the stop flag is clear, are appended
  in arrival order to the accumulated text and written to the placeholder.
\<close>

lemma chunks_accumulate:
  assumes "sends s = [cur]" and "messages s = ms @ [p]" and "id p = aiMessageId cur"
    and "content p = accumulatedText cur" and "\<not> stopGeneration s"
  shows "fold (streamChunk 0) cs s
         = s\<lparr>sends := [cur\<lparr>accumulatedText := accumulatedText cur @ concat cs\<rparr>],
              messages := ms @ [p\<lparr>content := accumulatedText cur @ concat cs\<rparr>]\<rparr>"
  using assms
proof (induction cs arbitrary: s cur p)
  case Nil
  then show ?case by simp
next
  case (Cons c cs)
  show ?case
  proof (cases "c = []")
    case True
    then have "streamChunk 0 c s = s"
      by (simp add: streamChunk_def)
    with Cons.IH[OF Cons.prems] True show ?thesis by simp
  next
    case False
    let ?cur = "cur\<lparr>accumulatedText := accumulatedText cur @ c\<rparr>"
    let ?p = "p\<lparr>content := accumulatedText cur @ c\<rparr>"
    let ?s = "s\<lparr>sends := [?cur], messages := ms @ [?p]\<rparr>"
    have st: "streamChunk 0 c s = ?s"
      using False Cons.prems by (simp add: streamChunk_def setLastContent_def Let_def)
    have "fold (streamChunk 0) cs ?s
          = ?s\<lparr>sends := [?cur\<lparr>accumulatedText := accumulatedText ?cur @ concat cs\<rparr>],
                messages := ms @ [?p\<lparr>content := accumulatedText ?cur @ concat cs\<rparr>]\<rparr>"
      using Cons.prems by (intro Cons.IH) simp_all
    then show ?thesis
      using st by simp
  qed
qed


text \<open>
  C8. The claim asks that after a stop the message in flight keeps its text and has
  \<open>isStreaming\<close> cleared. The update after the loop looks for the first message with
  \<open>aiMessageId\<close>. The two identifiers of a send come from two readings of the clock,
  \<open>Date.now() + 1\<close> for the placeholder and then \<open>Date.now()\<close> for the user message; when
  the clock ticks between them both are the same, the update finds the user message, and
  the placeholder keeps \<open>isStreaming\<close> set after the send is over. The text is kept.
\<close>

theorem stop_leaves_placeholder_streaming:
  "messages tickSendInFlight
     = [\<lparr>id = js ''101'', role = USER, content = js ''hi'', timestamp = 101, isStreaming = False\<rparr>,
        \<lparr>id = js ''101'', role = MODEL, content = [], timestamp = 101, isStreaming = True\<rparr>]
   \<and> sends tickSendInFlight
       = [\<lparr>aiMessageId = js ''101'', accumulatedText = [], sentText = js ''hi''\<rparr>]
   \<and> messages (streamChunk 0 (js ''ld'')
         (handleStop (fold (streamChunk 0) [js ''Hel'', js ''lo wor''] tickSendInFlight)))
       = [\<lparr>id = js ''101'', role = USER, content = js ''hi'', timestamp = 101, isStreaming = False\<rparr>,
          \<lparr>id = js ''101'', role = MODEL, content = js ''Hello wor'', timestamp = 101,
            isStreaming = True\<rparr>]
   \<and> sends (streamChunk 0 (js ''ld'')
         (handleStop (fold (streamChunk 0) [js ''Hel'', js ''lo wor''] tickSendInFlight))) = []
   \<and> \<not> isLoading (streamChunk 0 (js ''ld'')
         (handleStop (fold (streamChunk 0) [js ''Hel'', js ''lo wor''] tickSendInFlight)))"
  by code_simp

text \<open>
  Where no earlier message carries the identifier of the placeholder, the stop does what
  C8 says: the stop request only sets the flag, the next fragment is not appended, the
  placeholder keeps the text accumulated before and is marked non-streaming, the send is
  over, and no later fragment changes the state.
\<close>

lemma stop_with_unique_id:
  assumes "sends s = [cur]" and "messages s = ms @ [p]" and "id p = aiMessageId cur"
    and "\<forall>m\<in>set ms. id m \<noteq> id p"
    and "content p = accumulatedText cur" and "isLoading s" and "\<not> stopGeneration s"
    and "c \<noteq> []"
  shows "handleStop (fold (streamChunk 0) cs s) = (fold (streamChunk 0) cs s)\<lparr>stopGeneration := True\<rparr>
       \<and> messages (streamChunk 0 c (handleStop (fold (streamChunk 0) cs s)))
           = ms @ [p\<lparr>content := accumulatedText cur @ concat cs, isStreaming := False\<rparr>]
       \<and> sends (streamChunk 0 c (handleStop (fold (streamChunk 0) cs s))) = []
       \<and> \<not> isLoading (streamChunk 0 c (handleStop (fold (streamChunk 0) cs s)))
       \<and> (\<forall>j c'. streamChunk j c' (streamChunk 0 c (handleStop (fold (streamChunk 0) cs s)))
                 = streamChunk 0 c (handleStop (fold (streamChunk 0) cs s)))"
proof -
  let ?p = "p\<lparr>content := accumulatedText cur @ concat cs\<rparr>"
  define s1 where "s1 = fold (streamChunk 0) cs s"
  have s1: "s1 = s\<lparr>sends := [cur\<lparr>accumulatedText := accumulatedText cur @ concat cs\<rparr>],
                   messages := ms @ [?p]\<rparr>"
    unfolding s1_def using assms(1,2,3,5,7) by (rule chunks_accumulate)
  have cl: "clearStreaming (aiMessageId cur) (ms @ [?p]) = ms @ [?p\<lparr>isStreaming := False\<rparr>]"
    using assms(3,4) by (induction ms) simp_all
  have hs: "handleStop s1 = s1\<lparr>stopGeneration := True\<rparr>"
    using assms(6) by (simp add: handleStop_def s1)
  define s3 where "s3 = streamChunk 0 c (handleStop s1)"
  have m3: "messages s3 = ms @ [?p\<lparr>isStreaming := False\<rparr>]"
    and e3: "sends s3 = []" and l3: "\<not> isLoading s3"
    unfolding s3_def hs using assms(8) cl
    by (simp_all add: streamChunk_def leaveLoop_def finish_def recordTurn_def dropSend_def s1)
  have "\<forall>j c'. streamChunk j c' s3 = s3"
    using e3 by (simp add: streamChunk_def)
  with hs m3 e3 l3 show ?thesis
    unfolding s1_def[symmetric] s3_def[symmetric] by simp
qed



end
